theory Spec2Isabelle
  imports Main "HOL-Library.Extended_Nat" "HOL-Library.Product_Lexorder" "HOL-Library.Multiset"
begin

section \<open>Change making: the greedy and the dynamic-programming decomposers\<close>

text \<open>
  The two functions of \<^verbatim>\<open>find_coins.py\<close> are embedded as they are written. Python's
  unbounded integers are \<^typ>\<open>int\<close> (\<^verbatim>\<open>//\<close> and \<^verbatim>\<open>%\<close> are floor division and
  its remainder, as \<open>div\<close> and \<open>mod\<close> on \<^typ>\<open>int\<close>), \<^verbatim>\<open>float('inf')\<close> in the cost
  table is \<open>\<infinity>\<close> of \<^typ>\<open>enat\<close>, exceptions are values of \<open>py_error\<close>, and a dictionary is
  an association list in insertion order with pairwise distinct keys.
\<close>

subsection \<open>Python values: errors, list indexing, dictionaries\<close>

datatype py_error = IndexError | ZeroDivisionError

type_synonym py_dict = "(int \<times> int) list"

text \<open>\<^verbatim>\<open>xs[i]\<close>: a negative index counts from the end, an index out of range raises.\<close>

definition py_index :: "'a list \<Rightarrow> int \<Rightarrow> py_error + nat" where
  "py_index xs i =
     (let n = int (length xs) in
      if 0 \<le> i \<and> i < n then Inr (nat i)
      else if - n \<le> i \<and> i < 0 then Inr (nat (n + i))
      else Inl IndexError)"

definition py_get :: "'a list \<Rightarrow> int \<Rightarrow> py_error + 'a" where
  "py_get xs i = (case py_index xs i of Inl e \<Rightarrow> Inl e | Inr k \<Rightarrow> Inr (xs ! k))"

definition py_set :: "'a list \<Rightarrow> int \<Rightarrow> 'a \<Rightarrow> py_error + 'a list" where
  "py_set xs i v = (case py_index xs i of Inl e \<Rightarrow> Inl e | Inr k \<Rightarrow> Inr (xs[k := v]))"

text \<open>\<^verbatim>\<open>d[k] = v\<close>: an existing key keeps its place, a new key goes last.\<close>

fun dict_set :: "py_dict \<Rightarrow> int \<Rightarrow> int \<Rightarrow> py_dict" where
  "dict_set [] k v = [(k, v)]"
| "dict_set ((k', v') # d) k v =
     (if k' = k then (k, v) # d else (k', v') # dict_set d k v)"

text \<open>\<^verbatim>\<open>d[k] += 1\<close> on a \<^verbatim>\<open>defaultdict(int)\<close>: a missing key starts from 0.\<close>

fun dict_incr :: "py_dict \<Rightarrow> int \<Rightarrow> py_dict" where
  "dict_incr [] k = [(k, 0 + 1)]"
| "dict_incr ((k', v') # d) k =
     (if k' = k then (k', v' + 1) # d else (k', v') # dict_incr d k)"

text \<open>\<^verbatim>\<open>dict(items)\<close>: the pairs are inserted from left to right.\<close>

definition dict_of_items :: "(int \<times> int) list \<Rightarrow> py_dict" where
  "dict_of_items items = fold (\<lambda>(k, v) d. dict_set d k v) items []"

subsection \<open>\<^verbatim>\<open>find_coins_greedy\<close>\<close>

text \<open>
  The \<^verbatim>\<open>for\<close> loop over the sorted coins, on the loop's state: the remaining amount
  and the result built so far. \<^verbatim>\<open>break\<close> leaves with the state as it is; dividing by a
  coin 0 raises.
\<close>

fun greedy_loop :: "int list \<Rightarrow> int \<times> py_dict \<Rightarrow> py_error + (int \<times> py_dict)" where
  "greedy_loop [] (amount, result) = Inr (amount, result)"
| "greedy_loop (coin # coins) (amount, result) =
     (if amount = 0 then Inr (amount, result)
      else if coin = 0 then Inl ZeroDivisionError
      else
        let count = amount div coin in
        if count > 0 then greedy_loop coins (amount mod coin, dict_set result coin count)
        else greedy_loop coins (amount, result))"

definition find_coins_greedy :: "int \<Rightarrow> int list \<Rightarrow> py_error + py_dict" where
  "find_coins_greedy amount coins =
     (let coins = rev (sort coins) in
      case greedy_loop coins (amount, []) of
        Inl e \<Rightarrow> Inl e
      | Inr (amount', result) \<Rightarrow> Inr result)"

subsection \<open>\<^verbatim>\<open>find_min_coins\<close>\<close>

text \<open>
  The inner loop \<^verbatim>\<open>for i in range(coin, amount + 1)\<close> on the two tables; \<open>i\<close> is the
  loop variable, started at \<open>coin\<close>.
\<close>

function inner_loop :: "int \<Rightarrow> int \<Rightarrow> int \<Rightarrow> enat list \<times> int list \<Rightarrow> py_error + (enat list \<times> int list)" where
  "inner_loop coin amount i (min_coins, coin_used) =
     (if i < amount + 1 then
        (case py_get min_coins (i - coin) of
           Inl e \<Rightarrow> Inl e
         | Inr a \<Rightarrow>
            (case py_get min_coins i of
               Inl e \<Rightarrow> Inl e
             | Inr b \<Rightarrow>
                if a + 1 < b then
                  (case py_set min_coins i (a + 1) of
                     Inl e \<Rightarrow> Inl e
                   | Inr min_coins' \<Rightarrow>
                      (case py_set coin_used i coin of
                         Inl e \<Rightarrow> Inl e
                       | Inr coin_used' \<Rightarrow> inner_loop coin amount (i + 1) (min_coins', coin_used')))
                else inner_loop coin amount (i + 1) (min_coins, coin_used)))
      else Inr (min_coins, coin_used))"
  by pat_completeness auto
termination
  by (relation "measure (\<lambda>(coin, amount, i, t). nat (amount + 1 - i))") auto

declare inner_loop.simps [simp del]

fun outer_loop :: "int list \<Rightarrow> int \<Rightarrow> enat list \<times> int list \<Rightarrow> py_error + (enat list \<times> int list)" where
  "outer_loop [] amount t = Inr t"
| "outer_loop (coin # coins) amount t =
     (case inner_loop coin amount coin t of
        Inl e \<Rightarrow> Inl e
      | Inr t' \<Rightarrow> outer_loop coins amount t')"

text \<open>
  The reconstruction \<^verbatim>\<open>while current_amount > 0\<close>. Nothing in the loop itself bounds the
  number of rounds (a table entry 0 repeats the same round for ever), so the loop is a
  partial function: \<open>None\<close> is the run that never returns.
\<close>

partial_function (option) reconstruct :: "int list \<Rightarrow> int \<Rightarrow> py_dict \<Rightarrow> (py_error + py_dict) option" where
  "reconstruct coin_used current_amount result =
     (if current_amount > 0 then
        (case py_get coin_used current_amount of
           Inl e \<Rightarrow> Some (Inl e)
         | Inr coin \<Rightarrow> reconstruct coin_used (current_amount - coin) (dict_incr result coin))
      else Some (Inr result))"

declare reconstruct.simps [code]

definition find_min_coins :: "int \<Rightarrow> int list \<Rightarrow> (py_error + py_dict) option" where
  "find_min_coins amount coins =
     (let min_coins = replicate (nat (amount + 1)) (\<infinity> :: enat) in
      case py_set min_coins 0 0 of
        Inl e \<Rightarrow> Some (Inl e)
      | Inr min_coins \<Rightarrow>
         (let coin_used = replicate (nat (amount + 1)) (0 :: int) in
          case outer_loop coins amount (min_coins, coin_used) of
            Inl e \<Rightarrow> Some (Inl e)
          | Inr (min_coins, coin_used) \<Rightarrow>
             (case py_get min_coins amount of
                Inl e \<Rightarrow> Some (Inl e)
              | Inr m \<Rightarrow>
                 if m = \<infinity> then Some (Inr [])
                 else
                   (case reconstruct coin_used amount [] of
                      None \<Rightarrow> None
                    | Some (Inl e) \<Rightarrow> Some (Inl e)
                    | Some (Inr result) \<Rightarrow> Some (Inr (dict_of_items (sort result)))))))"

subsection \<open>Measures of a returned mapping\<close>

definition weighted_sum :: "py_dict \<Rightarrow> int" where
  "weighted_sum d = (\<Sum>(k, v) \<leftarrow> d. k * v)"

definition coin_count :: "py_dict \<Rightarrow> int" where
  "coin_count d = (\<Sum>(k, v) \<leftarrow> d. v)"

text \<open>
  A decomposition of an amount, in the words of the specification: a mapping from
  denominations of the given list to positive counts whose weighted sum is the amount.
\<close>

definition decomposition :: "int list \<Rightarrow> int \<Rightarrow> py_dict \<Rightarrow> bool" where
  "decomposition coins amount d \<longleftrightarrow>
     distinct (map fst d) \<and> (\<forall>(k, v) \<in> set d. k \<in> set coins \<and> 0 < v) \<and> weighted_sum d = amount"

text \<open>
  The amount can be formed from the denominations, each in unlimited supply: some list of
  coins, all of them among the denominations, sums to it.
\<close>

definition formable :: "int list \<Rightarrow> int \<Rightarrow> bool" where
  "formable coins amount \<longleftrightarrow> (\<exists>cs. set cs \<subseteq> set coins \<and> sum_list cs = amount)"

text \<open>The coins of a mapping, each denomination as often as its count says.\<close>

definition coins_of :: "py_dict \<Rightarrow> int list" where
  "coins_of d = concat (map (\<lambda>(k, v). replicate (nat v) k) d)"

subsection \<open>Loop invariants\<close>

text \<open>
  What the greedy loop has established when it leaves with remaining amount \<open>a'\<close> and
  result \<open>r'\<close>, started on the coins \<open>cs\<close> with remaining amount \<open>a\<close> and result \<open>r\<close>.
\<close>

definition greedy_post :: "int list \<Rightarrow> int \<Rightarrow> py_dict \<Rightarrow> int \<Rightarrow> py_dict \<Rightarrow> bool" where
  "greedy_post cs a r a' r' \<longleftrightarrow>
     0 \<le> a' \<and> a' \<le> a \<and> weighted_sum r' + a' = weighted_sum r + a \<and>
     (1 \<in> set cs \<longrightarrow> a' = 0) \<and> fst ` set r' \<subseteq> fst ` set r \<union> set cs \<and>
     distinct (map fst r') \<and> (\<forall>v \<in> snd ` set r'. 0 < v)"

text \<open>
  The cost table is complete at \<open>j\<close> for the coins \<open>S\<close>: no list of coins of \<open>S\<close> that
  sums to \<open>j\<close> is shorter than the entry.
\<close>

definition complete_at :: "int set \<Rightarrow> enat list \<Rightarrow> int \<Rightarrow> bool" where
  "complete_at S mc j \<longleftrightarrow>
     (\<forall>cs. set cs \<subseteq> S \<and> sum_list cs = j \<longrightarrow> mc ! nat j \<le> enat (length cs))"

text \<open>
  The choice table is consistent with the cost table: a reachable amount \<open>j > 0\<close> records a
  coin of \<open>S\<close> that fits, and the entry one coin below costs at least one coin less.
\<close>

definition choice_ok :: "int set \<Rightarrow> int \<Rightarrow> enat list \<Rightarrow> int list \<Rightarrow> bool" where
  "choice_ok S amount mc cu \<longleftrightarrow>
     int (length mc) = amount + 1 \<and> int (length cu) = amount + 1 \<and> mc ! 0 = 0 \<and>
     (\<forall>j. 0 < j \<and> j \<le> amount \<and> mc ! nat j \<noteq> \<infinity> \<longrightarrow>
        cu ! nat j \<in> S \<and> 0 < cu ! nat j \<and> cu ! nat j \<le> j \<and>
        mc ! nat (j - cu ! nat j) + 1 \<le> mc ! nat j)"

text \<open>The keys of a dictionary under construction are distinct and its counts positive.\<close>

definition well_formed :: "py_dict \<Rightarrow> bool" where
  "well_formed r \<longleftrightarrow> distinct (map fst r) \<and> (\<forall>v \<in> snd ` set r. 0 < v)"

section \<open>The greedy decomposer\<close>

lemma dict_set_fresh: "k \<notin> fst ` set d \<Longrightarrow> dict_set d k v = d @ [(k, v)]"
  by (induction d) auto

lemma weighted_sum_append: "weighted_sum (d @ e) = weighted_sum d + weighted_sum e"
  by (simp add: weighted_sum_def)

lemma coin_count_append: "coin_count (d @ e) = coin_count d + coin_count e"
  by (simp add: coin_count_def)

lemma greedy_loop_positive:
  assumes "\<forall>c \<in> set cs. 0 < c" and "0 \<le> a" and "\<forall>k \<in> fst ` set r. a < k"
    and "distinct (map fst r)" and "\<forall>v \<in> snd ` set r. 0 < v"
  shows "\<exists>a' r'. greedy_loop cs (a, r) = Inr (a', r') \<and> greedy_post cs a r a' r'"
  using assms
proof (induction cs arbitrary: a r)
  case Nil
  then show ?case by (simp add: greedy_post_def)
next
  case (Cons c cs)
  have cpos: "0 < c" and cspos: "\<forall>c \<in> set cs. 0 < c" using Cons.prems(1) by simp_all
  show ?case
  proof (cases "a = 0")
    case True
    then show ?thesis using Cons.prems by (auto simp: greedy_post_def)
  next
    case False
    show ?thesis
    proof (cases "0 < a div c")
      case True
      have ca: "c \<le> a"
      proof (rule ccontr)
        assume "\<not> c \<le> a"
        then have "a div c = 0" using Cons.prems(2) by (simp add: div_pos_pos_trivial)
        then show False using True by simp
      qed
      have fresh: "c \<notin> fst ` set r" using Cons.prems(3) ca by force
      let ?r = "r @ [(c, a div c)]"
      have ds: "dict_set r c (a div c) = ?r" using fresh by (rule dict_set_fresh)
      have m: "0 \<le> a mod c" "a mod c < c" using cpos by simp_all
      have ma: "a mod c \<le> a" using Cons.prems(2) cpos by (simp add: zmod_le_nonneg_dividend)
      have "\<exists>a' r'. greedy_loop cs (a mod c, ?r) = Inr (a', r') \<and> greedy_post cs (a mod c) ?r a' r'"
      proof (rule Cons.IH)
        show "\<forall>c \<in> set cs. 0 < c" by (rule cspos)
        show "0 \<le> a mod c" by (rule m)
        show "\<forall>k \<in> fst ` set ?r. a mod c < k" using Cons.prems(3) m ma by auto
        show "distinct (map fst ?r)" using Cons.prems(4) fresh by simp
        show "\<forall>v \<in> snd ` set ?r. 0 < v" using Cons.prems(5) True by auto
      qed
      then obtain a' r' where step: "greedy_loop cs (a mod c, ?r) = Inr (a', r')"
        and post: "greedy_post cs (a mod c) ?r a' r'"
        by blast
      have eq: "greedy_loop (c # cs) (a, r) = Inr (a', r')"
        using False cpos True ds step by (simp add: Let_def)
      have w: "weighted_sum ?r + a mod c = weighted_sum r + a"
        by (simp add: weighted_sum_append weighted_sum_def)
      have one: "c = 1 \<Longrightarrow> a' = 0" using post by (simp add: greedy_post_def)
      have "greedy_post (c # cs) a r a' r'"
        using post w ma one unfolding greedy_post_def by auto
      with eq show ?thesis by blast
    next
      case nodiv: False
      have ac: "a < c"
      proof (rule ccontr)
        assume "\<not> a < c"
        then have "c \<le> a" by simp
        then have "0 < a div c" using cpos by (simp add: pos_imp_zdiv_pos_iff)
        then show False using nodiv by simp
      qed
      have "\<exists>a' r'. greedy_loop cs (a, r) = Inr (a', r') \<and> greedy_post cs a r a' r'"
        using cspos Cons.prems(2-5) by (rule Cons.IH)
      then obtain a' r' where step: "greedy_loop cs (a, r) = Inr (a', r')"
        and post: "greedy_post cs a r a' r'"
        by blast
      have eq: "greedy_loop (c # cs) (a, r) = Inr (a', r')"
        using False cpos nodiv step by (simp add: Let_def)
      have c1: "c \<noteq> 1" using ac False Cons.prems(2) by simp
      have "greedy_post (c # cs) a r a' r'"
        using post c1 unfolding greedy_post_def by auto
      with eq show ?thesis by blast
    qed
  qed
qed

lemma find_coins_greedy_positive:
  assumes "0 \<le> amount" and "\<forall>c \<in> set coins. 0 < c"
  shows "\<exists>a' r. find_coins_greedy amount coins = Inr r \<and> greedy_post coins amount [] a' r"
proof -
  let ?cs = "rev (sort coins)"
  have "\<exists>a' r'. greedy_loop ?cs (amount, []) = Inr (a', r') \<and> greedy_post ?cs amount [] a' r'"
    by (rule greedy_loop_positive) (use assms in simp_all)
  then obtain a' r' where "greedy_loop ?cs (amount, []) = Inr (a', r')" "greedy_post ?cs amount [] a' r'"
    by blast
  then have "find_coins_greedy amount coins = Inr r'" "greedy_post coins amount [] a' r'"
    by (simp_all add: find_coins_greedy_def greedy_post_def)
  then show ?thesis by blast
qed

lemma find_coins_greedy_zero: "find_coins_greedy 0 coins = Inr []"
proof -
  have "greedy_loop cs (0, r) = Inr (0, r)" for cs r
    by (cases cs) simp_all
  then show ?thesis by (simp add: find_coins_greedy_def)
qed

section \<open>The dynamic-programming decomposer\<close>

lemma py_get_in_range: "0 \<le> i \<Longrightarrow> i < int (length xs) \<Longrightarrow> py_get xs i = Inr (xs ! nat i)"
  by (simp add: py_get_def py_index_def)

lemma py_set_in_range: "0 \<le> i \<Longrightarrow> i < int (length xs) \<Longrightarrow> py_set xs i v = Inr (xs[nat i := v])"
  by (simp add: py_set_def py_index_def)

lemma member_le_sum_list_int:
  fixes cs :: "int list"
  shows "\<forall>c \<in> set cs. 0 < c \<Longrightarrow> x \<in> set cs \<Longrightarrow> x \<le> sum_list cs"
proof (induction cs)
  case Nil
  then show ?case by simp
next
  case (Cons c cs)
  have "0 \<le> sum_list cs" using Cons.prems(1) by (simp add: sum_list_nonneg less_imp_le)
  then show ?case using Cons by auto
qed

lemma sum_list_remove1_int:
  fixes cs :: "int list"
  shows "x \<in> set cs \<Longrightarrow> sum_list (remove1 x cs) = sum_list cs - x"
  by (induction cs) auto

lemma choice_ok_mono: "choice_ok S amount mc cu \<Longrightarrow> S \<subseteq> T \<Longrightarrow> choice_ok T amount mc cu"
  unfolding choice_ok_def by blast

text \<open>The new entry at \<open>i\<close> is within the length of every list that sums to \<open>i\<close>.\<close>

lemma complete_at_step:
  assumes d: "0 < d" "d \<le> i" and pos: "\<forall>c \<in> S. 0 < c"
    and prev: "complete_at (insert d S) mc (i - d)"
    and old: "complete_at S mc i"
    and new: "mc' ! nat i \<le> mc ! nat i" "mc' ! nat i \<le> mc ! nat (i - d) + 1"
  shows "complete_at (insert d S) mc' i"
  unfolding complete_at_def
proof (intro allI impI)
  fix cs assume cs: "set cs \<subseteq> insert d S \<and> sum_list cs = i"
  show "mc' ! nat i \<le> enat (length cs)"
  proof (cases "d \<in> set cs")
    case True
    let ?cs = "remove1 d cs"
    have "set ?cs \<subseteq> insert d S" using cs set_remove1_subset by fast
    moreover have "sum_list ?cs = i - d" using True cs by (simp add: sum_list_remove1_int)
    ultimately have "mc ! nat (i - d) \<le> enat (length ?cs)"
      using prev unfolding complete_at_def by blast
    moreover have "length cs = Suc (length ?cs)"
      using True by (metis One_nat_def Suc_pred length_pos_if_in_set length_remove1)
    ultimately have "mc ! nat (i - d) + 1 \<le> enat (length cs)"
      by (cases "mc ! nat (i - d)") (simp_all add: one_enat_def)
    with new(2) show ?thesis by (rule order_trans)
  next
    case False
    then have "set cs \<subseteq> S" using cs by blast
    then have "mc ! nat i \<le> enat (length cs)" using old cs unfolding complete_at_def by blast
    with new(1) show ?thesis by (rule order_trans)
  qed
qed

lemma complete_at_below:
  assumes d: "0 < d" "j < d" and pos: "\<forall>c \<in> S. 0 < c" and old: "complete_at S mc j"
  shows "complete_at (insert d S) mc j"
  unfolding complete_at_def
proof (intro allI impI)
  fix cs assume cs: "set cs \<subseteq> insert d S \<and> sum_list cs = j"
  have "\<forall>c \<in> set cs. 0 < c" using cs pos d by auto
  then have "d \<notin> set cs" using member_le_sum_list_int [of cs d] cs d by auto
  then have "set cs \<subseteq> S" using cs by blast
  then show "mc ! nat j \<le> enat (length cs)" using old cs unfolding complete_at_def by blast
qed


lemma inner_loop_inv:
  assumes "0 < d" and "d \<le> i" and "\<forall>c \<in> S. 0 < c"
    and "choice_ok (insert d S) amount mc cu"
    and "\<forall>j. 0 \<le> j \<and> j < i \<and> j \<le> amount \<longrightarrow> complete_at (insert d S) mc j"
    and "\<forall>j. i \<le> j \<and> j \<le> amount \<longrightarrow> complete_at S mc j"
  shows "\<exists>mc' cu'. inner_loop d amount i (mc, cu) = Inr (mc', cu') \<and>
           choice_ok (insert d S) amount mc' cu' \<and>
           (\<forall>j. 0 \<le> j \<and> j \<le> amount \<longrightarrow> complete_at (insert d S) mc' j)"
  using assms(2,4,5,6)
proof (induction "nat (amount + 1 - i)" arbitrary: i mc cu)
  case 0
  then have "\<not> i < amount + 1" by simp
  then have "inner_loop d amount i (mc, cu) = Inr (mc, cu)"
    by (simp add: inner_loop.simps [of d amount i mc cu])
  moreover have "\<forall>j. 0 \<le> j \<and> j \<le> amount \<longrightarrow> complete_at (insert d S) mc j"
    using "0.prems"(3) \<open>\<not> i < amount + 1\<close> by auto
  ultimately show ?case using "0.prems"(2) by blast
next
  case (Suc n)
  have dpos: "0 < d" and pos: "\<forall>c \<in> S. 0 < c" by (rule assms)+
  have di: "d \<le> i" by (rule Suc.prems(1))
  have ok: "choice_ok (insert d S) amount mc cu" by (rule Suc.prems(2))
  have i: "i \<le> amount" "0 < i" using Suc.hyps(2) di dpos by simp_all
  have len: "int (length mc) = amount + 1" "int (length cu) = amount + 1"
    using ok by (simp_all add: choice_ok_def)
  define a where "a = mc ! nat (i - d)"
  define b where "b = mc ! nat i"
  have ga: "py_get mc (i - d) = Inr a"
    unfolding a_def using di dpos i len by (intro py_get_in_range) simp_all
  have gb: "py_get mc i = Inr b"
    unfolding b_def using i len by (intro py_get_in_range) simp_all
  have prev: "complete_at (insert d S) mc (i - d)" using Suc.prems(3) di dpos i by simp
  have old: "complete_at S mc i" using Suc.prems(4) i by simp
  have n: "n = nat (amount + 1 - (i + 1))" using Suc.hyps(2) by simp
  show ?case
  proof (cases "a + 1 < b")
    case True
    define mc' where "mc' = mc[nat i := a + 1]"
    define cu' where "cu' = cu[nat i := d]"
    have sm: "py_set mc i (a + 1) = Inr mc'"
      unfolding mc'_def using i len by (intro py_set_in_range) simp_all
    have sc: "py_set cu i d = Inr cu'"
      unfolding cu'_def using i len by (intro py_set_in_range) simp_all
    have unfold: "inner_loop d amount i (mc, cu) = inner_loop d amount (i + 1) (mc', cu')"
      using i True ga gb sm sc by (simp add: inner_loop.simps [of d amount i mc cu])
    have at_i: "mc' ! nat i = a + 1" unfolding mc'_def using i len by simp
    have other: "mc' ! nat j = mc ! nat j" if "0 \<le> j" "j \<noteq> i" for j
      unfolding mc'_def using that i by simp
    have le: "mc' ! nat j \<le> mc ! nat j" if "0 \<le> j" for j
    proof (cases "j = i")
      case True
      then show ?thesis using at_i \<open>a + 1 < b\<close> b_def by simp
    next
      case False
      then show ?thesis using other that by simp
    qed
    have ok': "choice_ok (insert d S) amount mc' cu'"
      unfolding choice_ok_def
    proof (intro conjI allI impI)
      show "int (length mc') = amount + 1" using len by (simp add: mc'_def)
      show "int (length cu') = amount + 1" using len by (simp add: cu'_def)
      show "mc' ! 0 = 0" using other [of 0] i ok by (simp add: choice_ok_def)
    next
      fix j assume j: "0 < j \<and> j \<le> amount \<and> mc' ! nat j \<noteq> \<infinity>"
      show "cu' ! nat j \<in> insert d S"
      proof (cases "j = i")
        case True then show ?thesis using len i by (simp add: cu'_def)
      next
        case False
        then have "cu' ! nat j = cu ! nat j" using j i by (simp add: cu'_def)
        moreover have "mc ! nat j \<noteq> \<infinity>" using other [of j] j False by simp
        ultimately show ?thesis using ok j unfolding choice_ok_def by metis
      qed
      show "0 < cu' ! nat j"
      proof (cases "j = i")
        case True then show ?thesis using len i dpos by (simp add: cu'_def)
      next
        case False
        then have "cu' ! nat j = cu ! nat j" using j i by (simp add: cu'_def)
        moreover have "mc ! nat j \<noteq> \<infinity>" using other [of j] j False by simp
        ultimately show ?thesis using ok j unfolding choice_ok_def by metis
      qed
      show "cu' ! nat j \<le> j"
      proof (cases "j = i")
        case True then show ?thesis using len i di by (simp add: cu'_def)
      next
        case False
        then have "cu' ! nat j = cu ! nat j" using j i by (simp add: cu'_def)
        moreover have "mc ! nat j \<noteq> \<infinity>" using other [of j] j False by simp
        ultimately show ?thesis using ok j unfolding choice_ok_def by metis
      qed
      show "mc' ! nat (j - cu' ! nat j) + 1 \<le> mc' ! nat j"
      proof (cases "j = i")
        case True
        then have "cu' ! nat j = d" using len i by (simp add: cu'_def)
        moreover have "mc' ! nat (i - d) = a" using other [of "i - d"] di dpos a_def by simp
        ultimately show ?thesis using True at_i by simp
      next
        case False
        then have c: "cu' ! nat j = cu ! nat j" using j i by (simp add: cu'_def)
        have fin: "mc ! nat j \<noteq> \<infinity>" using other [of j] j False by simp
        have facts: "cu ! nat j \<le> j" "mc ! nat (j - cu ! nat j) + 1 \<le> mc ! nat j"
          using ok j fin unfolding choice_ok_def by metis+
        have "mc' ! nat (j - cu ! nat j) \<le> mc ! nat (j - cu ! nat j)"
          using le [of "j - cu ! nat j"] facts(1) by simp
        then have "mc' ! nat (j - cu ! nat j) + 1 \<le> mc ! nat (j - cu ! nat j) + 1"
          by (rule add_right_mono)
        also have "\<dots> \<le> mc ! nat j" by (rule facts(2))
        also have "\<dots> = mc' ! nat j" using other [of j] j False by simp
        finally show ?thesis using c by simp
      qed
    qed
    have new_i: "complete_at (insert d S) mc' i"
      using dpos di pos prev old
    proof (rule complete_at_step)
      show "mc' ! nat i \<le> mc ! nat i" using le [of i] i by simp
      show "mc' ! nat i \<le> mc ! nat (i - d) + 1" using at_i a_def by simp
    qed
    have keep: "complete_at T mc' j" if "complete_at T mc j" "0 \<le> j" "j \<noteq> i" for T j
      using that other [of j] unfolding complete_at_def by simp
    have below: "\<forall>j. 0 \<le> j \<and> j < i + 1 \<and> j \<le> amount \<longrightarrow> complete_at (insert d S) mc' j"
    proof (intro allI impI)
      fix j assume j: "0 \<le> j \<and> j < i + 1 \<and> j \<le> amount"
      show "complete_at (insert d S) mc' j"
      proof (cases "j = i")
        case True then show ?thesis using new_i by simp
      next
        case False
        then have "complete_at (insert d S) mc j" using Suc.prems(3) j by simp
        then show ?thesis using j False by (intro keep) simp_all
      qed
    qed
    have above: "\<forall>j. i + 1 \<le> j \<and> j \<le> amount \<longrightarrow> complete_at S mc' j"
    proof (intro allI impI)
      fix j assume j: "i + 1 \<le> j \<and> j \<le> amount"
      then have "complete_at S mc j" using Suc.prems(4) by simp
      then show "complete_at S mc' j" using j i by (intro keep) simp_all
    qed
    have "d \<le> i + 1" using di by simp
    from Suc.hyps(1) [OF n this ok' below above] show ?thesis using unfold by simp
  next
    case False
    have unfold: "inner_loop d amount i (mc, cu) = inner_loop d amount (i + 1) (mc, cu)"
      using i False ga gb by (simp add: inner_loop.simps [of d amount i mc cu])
    have new_i: "complete_at (insert d S) mc i"
      using dpos di pos prev old
    proof (rule complete_at_step)
      show "mc ! nat i \<le> mc ! nat i" by simp
      show "mc ! nat i \<le> mc ! nat (i - d) + 1" using False a_def b_def by simp
    qed
    have below: "\<forall>j. 0 \<le> j \<and> j < i + 1 \<and> j \<le> amount \<longrightarrow> complete_at (insert d S) mc j"
    proof (intro allI impI)
      fix j assume j: "0 \<le> j \<and> j < i + 1 \<and> j \<le> amount"
      show "complete_at (insert d S) mc j"
      proof (cases "j = i")
        case True then show ?thesis using new_i by simp
      next
        case False
        then show ?thesis using Suc.prems(3) j by simp
      qed
    qed
    have above: "\<forall>j. i + 1 \<le> j \<and> j \<le> amount \<longrightarrow> complete_at S mc j"
      using Suc.prems(4) by simp
    have "d \<le> i + 1" using di by simp
    from Suc.hyps(1) [OF n this ok below above] show ?thesis using unfold by simp
  qed
qed

lemma outer_loop_inv:
  assumes "\<forall>c \<in> set ds. 0 < c" and "\<forall>c \<in> S. 0 < c"
    and "choice_ok S amount mc cu"
    and "\<forall>j. 0 \<le> j \<and> j \<le> amount \<longrightarrow> complete_at S mc j"
  shows "\<exists>mc' cu'. outer_loop ds amount (mc, cu) = Inr (mc', cu') \<and>
           choice_ok (S \<union> set ds) amount mc' cu' \<and>
           (\<forall>j. 0 \<le> j \<and> j \<le> amount \<longrightarrow> complete_at (S \<union> set ds) mc' j)"
  using assms
proof (induction ds arbitrary: S mc cu)
  case Nil
  then show ?case by simp
next
  case (Cons d ds)
  have dpos: "0 < d" using Cons.prems(1) by simp
  have "\<exists>mc' cu'. inner_loop d amount d (mc, cu) = Inr (mc', cu') \<and>
           choice_ok (insert d S) amount mc' cu' \<and>
           (\<forall>j. 0 \<le> j \<and> j \<le> amount \<longrightarrow> complete_at (insert d S) mc' j)"
  proof (rule inner_loop_inv [OF dpos _ Cons.prems(2)])
    show "d \<le> d" by simp
    show "choice_ok (insert d S) amount mc cu"
      using Cons.prems(3) by (rule choice_ok_mono) blast
    show "\<forall>j. 0 \<le> j \<and> j < d \<and> j \<le> amount \<longrightarrow> complete_at (insert d S) mc j"
      using Cons.prems(2,4) dpos by (blast intro: complete_at_below)
    show "\<forall>j. d \<le> j \<and> j \<le> amount \<longrightarrow> complete_at S mc j"
      using Cons.prems(4) dpos by simp
  qed
  then obtain mc' cu' where inner: "inner_loop d amount d (mc, cu) = Inr (mc', cu')"
    and ok: "choice_ok (insert d S) amount mc' cu'"
    and comp: "\<forall>j. 0 \<le> j \<and> j \<le> amount \<longrightarrow> complete_at (insert d S) mc' j"
    by blast
  have "\<exists>mc'' cu''. outer_loop ds amount (mc', cu') = Inr (mc'', cu'') \<and>
           choice_ok (insert d S \<union> set ds) amount mc'' cu'' \<and>
           (\<forall>j. 0 \<le> j \<and> j \<le> amount \<longrightarrow> complete_at (insert d S \<union> set ds) mc'' j)"
  proof (rule Cons.IH [OF _ _ ok comp])
    show "\<forall>c \<in> set ds. 0 < c" using Cons.prems(1) by simp
    show "\<forall>c \<in> insert d S. 0 < c" using Cons.prems(2) dpos by simp
  qed
  moreover have "insert d S \<union> set ds = S \<union> set (d # ds)" by simp
  ultimately show ?case using inner by simp
qed

lemma initial_tables:
  assumes "0 \<le> amount"
  defines "mc \<equiv> (replicate (nat (amount + 1)) (\<infinity> :: enat))[0 := 0]"
    and "cu \<equiv> replicate (nat (amount + 1)) (0 :: int)"
  shows "py_set (replicate (nat (amount + 1)) (\<infinity> :: enat)) 0 0 = Inr mc"
    and "choice_ok {} amount mc cu"
    and "\<forall>j. 0 \<le> j \<and> j \<le> amount \<longrightarrow> complete_at {} mc j"
proof -
  show "py_set (replicate (nat (amount + 1)) (\<infinity> :: enat)) 0 0 = Inr mc"
    using assms(1) unfolding mc_def by (simp add: py_set_def py_index_def)
  have inf: "mc ! nat j = \<infinity>" if "0 < j" "j \<le> amount" for j
    using that unfolding mc_def by simp
  have zero: "mc ! 0 = 0" using assms(1) unfolding mc_def by simp
  show "choice_ok {} amount mc cu"
    unfolding choice_ok_def using assms(1) inf zero by (simp add: mc_def cu_def)
  show "\<forall>j. 0 \<le> j \<and> j \<le> amount \<longrightarrow> complete_at {} mc j"
    unfolding complete_at_def using zero by auto
qed

lemma dict_incr_weighted: "weighted_sum (dict_incr r c) = weighted_sum r + c"
  by (induction r) (auto simp: weighted_sum_def algebra_simps)

lemma dict_incr_count: "coin_count (dict_incr r c) = coin_count r + 1"
  by (induction r) (auto simp: coin_count_def)

lemma dict_incr_keys: "fst ` set (dict_incr r c) = insert c (fst ` set r)"
  by (induction r c rule: dict_incr.induct) auto

lemma dict_incr_distinct: "distinct (map fst r) \<Longrightarrow> distinct (map fst (dict_incr r c))"
proof (induction r)
  case Nil
  then show ?case by simp
next
  case (Cons p r)
  obtain k v where p: "p = (k, v)" by (cases p)
  show ?case
  proof (cases "k = c")
    case True
    then show ?thesis using Cons.prems p by simp
  next
    case False
    have "k \<notin> fst ` set (dict_incr r c)" using Cons.prems p False by (simp add: dict_incr_keys)
    then show ?thesis using Cons p False by simp
  qed
qed

lemma dict_incr_positive:
  "\<forall>v \<in> snd ` set r. 0 < v \<Longrightarrow> \<forall>v \<in> snd ` set (dict_incr r c). 0 < v"
  by (induction r c rule: dict_incr.induct) auto

lemma reconstruct_inv:
  assumes ok: "choice_ok S amount mc cu"
  shows "0 \<le> j \<Longrightarrow> j \<le> amount \<Longrightarrow> mc ! nat j = enat k \<Longrightarrow> well_formed r \<Longrightarrow>
         \<exists>r'. reconstruct cu j r = Some (Inr r') \<and> weighted_sum r' = weighted_sum r + j \<and>
           coin_count r' \<le> coin_count r + int k \<and> fst ` set r' \<subseteq> fst ` set r \<union> S \<and>
           well_formed r'"
proof (induction "nat j" arbitrary: j k r rule: less_induct)
  case less
  show ?case
  proof (cases "0 < j")
    case False
    then have "reconstruct cu j r = Some (Inr r)" by (simp add: reconstruct.simps)
    moreover have "j = 0" using False less.prems(1) by simp
    ultimately show ?thesis using less.prems(4) by simp
  next
    case True
    define c where "c = cu ! nat j"
    have fin: "mc ! nat j \<noteq> \<infinity>" using less.prems(3) by simp
    have c: "c \<in> S" "0 < c" "c \<le> j" "mc ! nat (j - c) + 1 \<le> mc ! nat j"
      using ok True less.prems(2) fin unfolding choice_ok_def c_def by metis+
    have len: "int (length cu) = amount + 1" using ok by (simp add: choice_ok_def)
    have get: "py_get cu j = Inr c"
      unfolding c_def using True less.prems(2) len by (intro py_get_in_range) simp_all
    have unfold: "reconstruct cu j r = reconstruct cu (j - c) (dict_incr r c)"
      using True get by (subst reconstruct.simps) simp
    obtain k' where k': "mc ! nat (j - c) = enat k'" "Suc k' \<le> k"
      using c(4) less.prems(3) by (cases "mc ! nat (j - c)") (auto simp: one_enat_def)
    have wf: "well_formed (dict_incr r c)"
      using less.prems(4) dict_incr_distinct [of r c] dict_incr_positive [of r c]
      unfolding well_formed_def by blast
    have "\<exists>r'. reconstruct cu (j - c) (dict_incr r c) = Some (Inr r') \<and>
           weighted_sum r' = weighted_sum (dict_incr r c) + (j - c) \<and>
           coin_count r' \<le> coin_count (dict_incr r c) + int k' \<and>
           fst ` set r' \<subseteq> fst ` set (dict_incr r c) \<union> S \<and> well_formed r'"
    proof (rule less.hyps [OF _ _ _ k'(1) wf])
      show "nat (j - c) < nat j" using c(2,3) by simp
      show "0 \<le> j - c" using c(3) by simp
      show "j - c \<le> amount" using c(2) less.prems(2) by simp
    qed
    then obtain r' where r': "reconstruct cu (j - c) (dict_incr r c) = Some (Inr r')"
      "weighted_sum r' = weighted_sum (dict_incr r c) + (j - c)"
      "coin_count r' \<le> coin_count (dict_incr r c) + int k'"
      "fst ` set r' \<subseteq> fst ` set (dict_incr r c) \<union> S" "well_formed r'"
      by blast
    have "weighted_sum r' = weighted_sum r + j" using r'(2) by (simp add: dict_incr_weighted)
    moreover have "coin_count r' \<le> coin_count r + int k"
      using r'(3) k'(2) by (simp add: dict_incr_count)
    moreover have "fst ` set r' \<subseteq> fst ` set r \<union> S"
      using r'(4) c(1) by (auto simp: dict_incr_keys)
    ultimately show ?thesis using unfold r'(1,5) by simp
  qed
qed


lemma dict_set_fold_fresh:
  "distinct (map fst (d @ xs)) \<Longrightarrow> fold (\<lambda>(k, v) d. dict_set d k v) xs d = d @ xs"
proof (induction xs arbitrary: d)
  case Nil
  then show ?case by simp
next
  case (Cons p xs)
  obtain k v where p: "p = (k, v)" by (cases p)
  have "k \<notin> fst ` set d" using Cons.prems p by auto
  then have "dict_set d k v = d @ [(k, v)]" by (rule dict_set_fresh)
  moreover have "distinct (map fst ((d @ [(k, v)]) @ xs))" using Cons.prems p by simp
  ultimately show ?case using Cons.IH [of "d @ [(k, v)]"] p by simp
qed

lemma dict_of_items_distinct: "distinct (map fst xs) \<Longrightarrow> dict_of_items xs = xs"
  using dict_set_fold_fresh [of "[]" xs] by (simp add: dict_of_items_def)

lemma sort_distinct_keys:
  fixes r :: py_dict
  assumes "distinct (map fst r)"
  shows "distinct (map fst (sort r))"
proof -
  have "mset (map fst (sort r)) = mset (map fst r)" by simp
  then show ?thesis using assms by (metis mset_eq_imp_distinct_iff)
qed

lemma weighted_sum_sort: "weighted_sum (sort r) = weighted_sum r"
proof -
  have "weighted_sum d = sum_mset (image_mset (\<lambda>(k, v). k * v) (mset d))" for d
    unfolding weighted_sum_def by (metis mset_map sum_mset_sum_list)
  then show ?thesis by simp
qed

lemma coin_count_sort: "coin_count (sort r) = coin_count r"
proof -
  have "coin_count d = sum_mset (image_mset (\<lambda>(k, v). v) (mset d))" for d
    unfolding coin_count_def by (metis mset_map sum_mset_sum_list)
  then show ?thesis by simp
qed

lemma coins_of_set: "set (coins_of d) \<subseteq> fst ` set d"
  by (induction d) (auto simp: coins_of_def)

lemma coins_of_sum: "\<forall>v \<in> snd ` set d. 0 \<le> v \<Longrightarrow> sum_list (coins_of d) = weighted_sum d"
  by (induction d) (auto simp: coins_of_def weighted_sum_def sum_list_replicate)

lemma coins_of_length: "\<forall>v \<in> snd ` set d. 0 \<le> v \<Longrightarrow> int (length (coins_of d)) = coin_count d"
  by (induction d) (auto simp: coins_of_def coin_count_def)

lemma decomposition_coins_of:
  assumes "decomposition coins amount d"
  shows "set (coins_of d) \<subseteq> set coins" and "sum_list (coins_of d) = amount"
    and "int (length (coins_of d)) = coin_count d"
proof -
  have keys: "fst ` set d \<subseteq> set coins" and pos: "\<forall>v \<in> snd ` set d. 0 \<le> v"
    using assms unfolding decomposition_def by force+
  show "set (coins_of d) \<subseteq> set coins" using coins_of_set keys by blast
  show "sum_list (coins_of d) = amount"
    using coins_of_sum [OF pos] assms by (simp add: decomposition_def)
  show "int (length (coins_of d)) = coin_count d" by (rule coins_of_length [OF pos])
qed

lemma decomposition_formable: "decomposition coins amount d \<Longrightarrow> formable coins amount"
  unfolding formable_def using decomposition_coins_of(1,2) by blast

lemma find_min_coins_positive:
  assumes amount: "0 \<le> amount" and coins: "\<forall>c \<in> set coins. 0 < c"
  shows "\<exists>r. find_min_coins amount coins = Some (Inr r) \<and>
           (if formable coins amount
            then decomposition coins amount r \<and>
                 (\<forall>cs. set cs \<subseteq> set coins \<and> sum_list cs = amount \<longrightarrow>
                    coin_count r \<le> int (length cs))
            else r = [])"
proof -
  define mc0 where "mc0 = (replicate (nat (amount + 1)) (\<infinity> :: enat))[0 := 0]"
  define cu0 where "cu0 = replicate (nat (amount + 1)) (0 :: int)"
  have init: "py_set (replicate (nat (amount + 1)) (\<infinity> :: enat)) 0 0 = Inr mc0"
    "choice_ok {} amount mc0 cu0"
    "\<forall>j. 0 \<le> j \<and> j \<le> amount \<longrightarrow> complete_at {} mc0 j"
    unfolding mc0_def cu0_def by (rule initial_tables [OF amount])+
  have "\<exists>mc cu. outer_loop coins amount (mc0, cu0) = Inr (mc, cu) \<and>
           choice_ok ({} \<union> set coins) amount mc cu \<and>
           (\<forall>j. 0 \<le> j \<and> j \<le> amount \<longrightarrow> complete_at ({} \<union> set coins) mc j)"
    by (rule outer_loop_inv [OF coins _ init(2,3)]) simp
  then obtain mc cu where outer: "outer_loop coins amount (mc0, cu0) = Inr (mc, cu)"
    and ok: "choice_ok (set coins) amount mc cu"
    and comp: "complete_at (set coins) mc amount"
    using amount by auto
  define m where "m = mc ! nat amount"
  have len: "int (length mc) = amount + 1" using ok by (simp add: choice_ok_def)
  have get: "py_get mc amount = Inr m"
    unfolding m_def using amount len by (intro py_get_in_range) simp_all
  have lower: "m \<le> enat (length cs)" if "set cs \<subseteq> set coins" "sum_list cs = amount" for cs
    using comp that unfolding complete_at_def m_def by blast
  show ?thesis
  proof (cases m)
    case infinity
    have "find_min_coins amount coins = Some (Inr [])"
      using init(1) outer get infinity
      by (simp add: find_min_coins_def mc0_def cu0_def)
    moreover have "\<not> formable coins amount"
      using lower infinity unfolding formable_def by auto
    ultimately show ?thesis by simp
  next
    case (enat k)
    have "mc ! nat amount = enat k" using enat by (simp add: m_def)
    moreover have "well_formed []" by (simp add: well_formed_def)
    ultimately have "\<exists>r'. reconstruct cu amount [] = Some (Inr r') \<and>
           weighted_sum r' = weighted_sum [] + amount \<and>
           coin_count r' \<le> coin_count [] + int k \<and>
           fst ` set r' \<subseteq> fst ` set ([] :: py_dict) \<union> set coins \<and> well_formed r'"
      using reconstruct_inv [OF ok amount, of k "[]"] by simp
    then obtain r' where r': "reconstruct cu amount [] = Some (Inr r')"
      "weighted_sum r' = amount" "coin_count r' \<le> int k" "fst ` set r' \<subseteq> set coins"
      "well_formed r'"
      by (auto simp: weighted_sum_def coin_count_def)
    define r where "r = sort r'"
    have dist: "distinct (map fst r)"
      using r'(5) unfolding r_def well_formed_def by (simp add: sort_distinct_keys)
    have res: "find_min_coins amount coins = Some (Inr r)"
      using init(1) outer get enat r'(1) dict_of_items_distinct [OF dist]
      by (simp add: find_min_coins_def mc0_def cu0_def r_def)
    have "\<forall>(k, v) \<in> set r. k \<in> set coins \<and> 0 < v"
      using r'(4,5) unfolding r_def well_formed_def by force
    then have dec: "decomposition coins amount r"
      using dist r'(2) unfolding decomposition_def by (simp add: r_def weighted_sum_sort)
    have "coin_count r \<le> int (length cs)" if "set cs \<subseteq> set coins \<and> sum_list cs = amount" for cs
    proof -
      have "enat k \<le> enat (length cs)" using lower that enat by simp
      moreover have "coin_count r \<le> int k" using r'(3) by (simp add: r_def coin_count_sort)
      ultimately show ?thesis by simp
    qed
    with dec res decomposition_formable [OF dec] show ?thesis by auto
  qed
qed

lemma decomposition_minimal:
  assumes "\<forall>cs. set cs \<subseteq> set coins \<and> sum_list cs = amount \<longrightarrow> coin_count r \<le> int (length cs)"
    and "decomposition coins amount d"
  shows "coin_count r \<le> coin_count d"
  using assms decomposition_coins_of [OF assms(2)] by metis

lemma inner_loop_beyond: "amount < i \<Longrightarrow> inner_loop coin amount i t = Inr t"
  by (cases t) (simp add: inner_loop.simps)

lemma outer_loop_zero: "\<forall>c \<in> set coins. 0 < c \<Longrightarrow> outer_loop coins 0 t = Inr t"
  by (induction coins) (simp_all add: inner_loop_beyond)

lemma find_min_coins_zero:
  assumes "\<forall>c \<in> set coins. 0 < c"
  shows "find_min_coins 0 coins = Some (Inr [])"
proof -
  have "reconstruct cu 0 [] = Some (Inr [])" for cu
    by (simp add: reconstruct.simps)
  then show ?thesis
    using outer_loop_zero [OF assms]
    by (simp add: find_min_coins_def py_set_def py_get_def py_index_def dict_of_items_def zero_enat_def)
qed

lemma formable_with_one:
  assumes "0 \<le> amount" and "1 \<in> set coins"
  shows "formable coins amount"
  unfolding formable_def
proof (intro exI conjI)
  show "set (replicate (nat amount) (1::int)) \<subseteq> set coins" using assms(2) by auto
  show "sum_list (replicate (nat amount) (1::int)) = amount"
    using assms(1) by (simp add: sum_list_replicate)
qed

lemma not_formable_below:
  assumes "\<forall>c \<in> set coins. amount < c" and "0 < amount"
  shows "\<not> formable coins amount"
proof
  assume "formable coins amount"
  then obtain cs where cs: "set cs \<subseteq> set coins" "sum_list cs = amount"
    unfolding formable_def by blast
  have pos: "\<forall>c \<in> set cs. 0 < c" using cs(1) assms by force
  show False
  proof (cases cs)
    case Nil
    then show ?thesis using cs(2) assms(2) by simp
  next
    case (Cons c cs')
    then have "c \<le> sum_list cs" using member_le_sum_list_int [OF pos, of c] by simp
    moreover have "amount < c" using Cons cs(1) assms(1) by simp
    ultimately show ?thesis using cs(2) by simp
  qed
qed

lemma coin_count_nonneg: "\<forall>v \<in> snd ` set d. 0 < v \<Longrightarrow> 0 \<le> coin_count d"
  by (induction d) (auto simp: coin_count_def)

lemma coin_count_zero_empty:
  assumes "\<forall>v \<in> snd ` set d. 0 < v" and "coin_count d = 0"
  shows "d = []"
proof (cases d)
  case Nil
  then show ?thesis .
next
  case (Cons p d')
  have "0 < snd p" using assms(1) Cons by simp
  moreover have "0 \<le> coin_count d'" using assms(1) Cons by (intro coin_count_nonneg) simp
  moreover have "coin_count d = snd p + coin_count d'"
    using Cons by (cases p) (simp add: coin_count_def)
  ultimately show ?thesis using assms(2) by simp
qed

lemma decomposition_counts: "decomposition coins amount d \<Longrightarrow> \<forall>v \<in> snd ` set d. 0 < v"
  unfolding decomposition_def by force

lemma decomposition_set_cong:
  "set coins' = set coins \<Longrightarrow> decomposition coins' amount d = decomposition coins amount d"
  by (simp add: decomposition_def)

lemma formable_set_cong: "set coins' = set coins \<Longrightarrow> formable coins' amount = formable coins amount"
  by (simp add: formable_def)

lemma greedy_post_decomposition:
  assumes "greedy_post coins amount [] a' g" and "weighted_sum g = amount"
  shows "decomposition coins amount g"
proof -
  have "fst ` set g \<subseteq> set coins" "distinct (map fst g)" "\<forall>v \<in> snd ` set g. 0 < v"
    using assms(1) by (simp_all add: greedy_post_def)
  then have "\<forall>(k, v) \<in> set g. k \<in> set coins \<and> 0 < v" by force
  then show ?thesis using \<open>distinct (map fst g)\<close> assms(2) by (simp add: decomposition_def)
qed

section \<open>Inputs outside the precondition\<close>

lemma py_get_cases: "py_get xs i = Inl IndexError \<or> (\<exists>x. py_get xs i = Inr x)"
  by (simp add: py_get_def py_index_def Let_def)

lemma py_set_cases:
  "py_set xs i v = Inl IndexError \<or> (\<exists>ys. py_set xs i v = Inr ys \<and> length ys = length xs)"
  by (simp add: py_set_def py_index_def Let_def)

lemma py_get_beyond: "int (length xs) \<le> i \<Longrightarrow> py_get xs i = Inl IndexError"
  by (simp add: py_get_def py_index_def Let_def)

lemma inner_loop_cases:
  "inner_loop d amount i (mc, cu) = Inl IndexError \<or>
   (\<exists>mc' cu'. inner_loop d amount i (mc, cu) = Inr (mc', cu') \<and>
      length mc' = length mc \<and> length cu' = length cu)"
proof (induction "nat (amount + 1 - i)" arbitrary: i mc cu)
  case 0
  then show ?case by (simp add: inner_loop.simps [of d amount i mc cu])
next
  case (Suc n)
  have i: "i < amount + 1" using Suc.hyps(2) by simp
  have n: "n = nat (amount + 1 - (i + 1))" using Suc.hyps(2) by simp
  note IH = Suc.hyps(1) [OF n]
  note unfold = inner_loop.simps [of d amount i mc cu]
  consider (ea) "py_get mc (i - d) = Inl IndexError"
    | (eb) a where "py_get mc (i - d) = Inr a" "py_get mc i = Inl IndexError"
    | (ok) a b where "py_get mc (i - d) = Inr a" "py_get mc i = Inr b"
    using py_get_cases [of mc "i - d"] py_get_cases [of mc i] by blast
  then show ?case
  proof cases
    case ea
    then show ?thesis using i by (simp add: unfold)
  next
    case eb
    then show ?thesis using i by (simp add: unfold)
  next
    case ok
    show ?thesis
    proof (cases "a + 1 < b")
      case False
      then have "inner_loop d amount i (mc, cu) = inner_loop d amount (i + 1) (mc, cu)"
        using i ok by (simp add: unfold)
      then show ?thesis using IH [of mc cu] by simp
    next
      case True
      consider (em) "py_set mc i (a + 1) = Inl IndexError"
        | (ec) mc' where "py_set mc i (a + 1) = Inr mc'" "py_set cu i d = Inl IndexError"
        | (set) mc' cu' where "py_set mc i (a + 1) = Inr mc'" "length mc' = length mc"
            "py_set cu i d = Inr cu'" "length cu' = length cu"
        using py_set_cases [of mc i "a + 1"] py_set_cases [of cu i d] by blast
      then show ?thesis
      proof cases
        case em
        then show ?thesis using i ok True by (simp add: unfold)
      next
        case ec
        then show ?thesis using i ok True by (simp add: unfold)
      next
        case set
        then have "inner_loop d amount i (mc, cu) = inner_loop d amount (i + 1) (mc', cu')"
          using i ok True by (simp add: unfold)
        then show ?thesis using IH [of mc' cu'] set(2,4) by simp
      qed
    qed
  qed
qed

lemma inner_loop_negative:
  assumes "d < 0"
  shows "i \<le> amount \<Longrightarrow> int (length mc) = amount + 1 \<Longrightarrow> int (length cu) = amount + 1 \<Longrightarrow>
         inner_loop d amount i (mc, cu) = Inl IndexError"
proof (induction "nat (amount + 1 - i)" arbitrary: i mc cu)
  case 0
  then show ?case by simp
next
  case (Suc n)
  have i: "i < amount + 1" using Suc.prems(1) by simp
  have n: "n = nat (amount + 1 - (i + 1))" using Suc.hyps(2) by simp
  note unfold = inner_loop.simps [of d amount i mc cu]
  show ?case
  proof (cases "i = amount")
    case True
    then have "int (length mc) \<le> i - d" using assms Suc.prems(2) by simp
    then have "py_get mc (i - d) = Inl IndexError" by (rule py_get_beyond)
    then show ?thesis using i by (simp add: unfold)
  next
    case False
    then have next_i: "i + 1 \<le> amount" using Suc.prems(1) by simp
    note IH = Suc.hyps(1) [OF n next_i]
    consider (ea) "py_get mc (i - d) = Inl IndexError"
      | (eb) a where "py_get mc (i - d) = Inr a" "py_get mc i = Inl IndexError"
      | (ok) a b where "py_get mc (i - d) = Inr a" "py_get mc i = Inr b"
      using py_get_cases [of mc "i - d"] py_get_cases [of mc i] by blast
    then show ?thesis
    proof cases
      case ea
      then show ?thesis using i by (simp add: unfold)
    next
      case eb
      then show ?thesis using i by (simp add: unfold)
    next
      case ok
      show ?thesis
      proof (cases "a + 1 < b")
        case False
        then have "inner_loop d amount i (mc, cu) = inner_loop d amount (i + 1) (mc, cu)"
          using i ok by (simp add: unfold)
        then show ?thesis using IH [of mc cu] Suc.prems(2,3) by simp
      next
        case True
        consider (em) "py_set mc i (a + 1) = Inl IndexError"
          | (ec) mc' where "py_set mc i (a + 1) = Inr mc'" "py_set cu i d = Inl IndexError"
          | (set) mc' cu' where "py_set mc i (a + 1) = Inr mc'" "length mc' = length mc"
              "py_set cu i d = Inr cu'" "length cu' = length cu"
          using py_set_cases [of mc i "a + 1"] py_set_cases [of cu i d] by blast
        then show ?thesis
        proof cases
          case em
          then show ?thesis using i ok True by (simp add: unfold)
        next
          case ec
          then show ?thesis using i ok True by (simp add: unfold)
        next
          case set
          then have "inner_loop d amount i (mc, cu) = inner_loop d amount (i + 1) (mc', cu')"
            using i ok True by (simp add: unfold)
          then show ?thesis using IH [of mc' cu'] set(2,4) Suc.prems(2,3) by simp
        qed
      qed
    qed
  qed
qed

lemma outer_loop_negative:
  assumes "0 \<le> amount"
  shows "\<exists>c \<in> set coins. c < 0 \<Longrightarrow> int (length mc) = amount + 1 \<Longrightarrow>
         int (length cu) = amount + 1 \<Longrightarrow> outer_loop coins amount (mc, cu) = Inl IndexError"
proof (induction coins arbitrary: mc cu)
  case Nil
  then show ?case by simp
next
  case (Cons c cs)
  show ?case
  proof (cases "c < 0")
    case True
    then have "inner_loop c amount c (mc, cu) = Inl IndexError"
      using assms Cons.prems(2,3) by (intro inner_loop_negative) simp_all
    then show ?thesis by simp
  next
    case False
    then have rest: "\<exists>c \<in> set cs. c < 0" using Cons.prems(1) by auto
    from inner_loop_cases [of c amount c mc cu] show ?thesis
    proof
      assume "inner_loop c amount c (mc, cu) = Inl IndexError"
      then show ?thesis by simp
    next
      assume "\<exists>mc' cu'. inner_loop c amount c (mc, cu) = Inr (mc', cu') \<and>
        length mc' = length mc \<and> length cu' = length cu"
      then obtain mc' cu' where step: "inner_loop c amount c (mc, cu) = Inr (mc', cu')"
        "length mc' = length mc" "length cu' = length cu"
        by blast
      have "outer_loop cs amount (mc', cu') = Inl IndexError"
        using rest step(2,3) Cons.prems(2,3) by (intro Cons.IH) simp_all
      then show ?thesis using step(1) by simp
    qed
  qed
qed

lemma inner_loop_zero:
  "0 \<le> i \<Longrightarrow> int (length mc) = amount + 1 \<Longrightarrow> inner_loop 0 amount i (mc, cu) = Inr (mc, cu)"
proof (induction "nat (amount + 1 - i)" arbitrary: i)
  case 0
  then show ?case by (simp add: inner_loop.simps [of 0 amount i mc cu])
next
  case (Suc n)
  have i: "i < amount + 1" using Suc.hyps(2) by simp
  have n: "n = nat (amount + 1 - (i + 1))" using Suc.hyps(2) by simp
  have get: "py_get mc i = Inr (mc ! nat i)"
    using Suc.prems i by (intro py_get_in_range) simp_all
  have "\<not> mc ! nat i + 1 < mc ! nat i" by (cases "mc ! nat i") (simp_all add: one_enat_def)
  then have "inner_loop 0 amount i (mc, cu) = inner_loop 0 amount (i + 1) (mc, cu)"
    using i get by (simp add: inner_loop.simps [of 0 amount i mc cu])
  then show ?case using Suc.hyps(1) [OF n] Suc.prems by simp
qed

lemma outer_loop_filter_zero:
  assumes "0 \<le> amount"
  shows "int (length mc) = amount + 1 \<Longrightarrow>
         outer_loop coins amount (mc, cu) = outer_loop (filter (\<lambda>c. c \<noteq> 0) coins) amount (mc, cu)"
proof (induction coins arbitrary: mc cu)
  case Nil
  then show ?case by simp
next
  case (Cons c cs)
  show ?case
  proof (cases "c = 0")
    case True
    have "inner_loop 0 amount 0 (mc, cu) = Inr (mc, cu)"
      using Cons.prems by (intro inner_loop_zero) simp_all
    then show ?thesis using True Cons.IH [OF Cons.prems] by simp
  next
    case False
    from inner_loop_cases [of c amount c mc cu] show ?thesis
    proof
      assume "inner_loop c amount c (mc, cu) = Inl IndexError"
      then show ?thesis using False by simp
    next
      assume "\<exists>mc' cu'. inner_loop c amount c (mc, cu) = Inr (mc', cu') \<and>
        length mc' = length mc \<and> length cu' = length cu"
      then obtain mc' cu' where step: "inner_loop c amount c (mc, cu) = Inr (mc', cu')"
        "length mc' = length mc"
        by blast
      have "int (length mc') = amount + 1" using step(2) Cons.prems by simp
      then show ?thesis using step(1) False Cons.IH [of mc' cu'] by simp
    qed
  qed
qed

lemma find_min_coins_negative_amount:
  "amount < 0 \<Longrightarrow> find_min_coins amount coins = Some (Inl IndexError)"
  by (simp add: find_min_coins_def py_set_def py_index_def)

lemma find_min_coins_unfold:
  assumes "0 \<le> amount"
  shows "find_min_coins amount coins =
     (case outer_loop coins amount
             ((replicate (nat (amount + 1)) \<infinity>)[0 := 0], replicate (nat (amount + 1)) 0) of
        Inl e \<Rightarrow> Some (Inl e)
      | Inr (min_coins, coin_used) \<Rightarrow>
         (case py_get min_coins amount of
            Inl e \<Rightarrow> Some (Inl e)
          | Inr m \<Rightarrow>
             if m = \<infinity> then Some (Inr [])
             else
               (case reconstruct coin_used amount [] of
                  None \<Rightarrow> None
                | Some (Inl e) \<Rightarrow> Some (Inl e)
                | Some (Inr result) \<Rightarrow> Some (Inr (dict_of_items (sort result))))))"
proof -
  have "py_set (replicate (nat (amount + 1)) (\<infinity> :: enat)) 0 0 =
      Inr ((replicate (nat (amount + 1)) \<infinity>)[0 := 0])"
    using assms by (simp add: py_set_def py_index_def)
  then show ?thesis by (simp add: find_min_coins_def)
qed

lemma find_min_coins_negative_coin:
  assumes "\<exists>c \<in> set coins. c < 0"
  shows "find_min_coins amount coins = Some (Inl IndexError)"
proof (cases "amount < 0")
  case True
  then show ?thesis by (rule find_min_coins_negative_amount)
next
  case False
  then have amount: "0 \<le> amount" by simp
  have "outer_loop coins amount
      ((replicate (nat (amount + 1)) \<infinity>)[0 := 0], replicate (nat (amount + 1)) 0) = Inl IndexError"
    using amount assms by (intro outer_loop_negative) simp_all
  then show ?thesis by (simp add: find_min_coins_unfold [OF amount])
qed

lemma find_min_coins_ignores_zero:
  "find_min_coins amount coins = find_min_coins amount (filter (\<lambda>c. c \<noteq> 0) coins)"
proof (cases "amount < 0")
  case True
  then show ?thesis by (simp add: find_min_coins_negative_amount)
next
  case False
  then have amount: "0 \<le> amount" by simp
  have "outer_loop coins amount
      ((replicate (nat (amount + 1)) \<infinity>)[0 := 0], replicate (nat (amount + 1)) 0) =
    outer_loop (filter (\<lambda>c. c \<noteq> 0) coins) amount
      ((replicate (nat (amount + 1)) \<infinity>)[0 := 0], replicate (nat (amount + 1)) 0)"
    using amount by (intro outer_loop_filter_zero) simp_all
  then show ?thesis by (simp add: find_min_coins_unfold [OF amount])
qed

lemma greedy_loop_negative_amount:
  "a < 0 \<Longrightarrow> \<forall>c \<in> set cs. 0 < c \<Longrightarrow> greedy_loop cs (a, r) = Inr (a, r)"
proof (induction cs)
  case Nil
  then show ?case by simp
next
  case (Cons c cs)
  have "0 < c" using Cons.prems(2) by simp
  then have "a div c < 0" using Cons.prems(1) by (simp add: pos_imp_zdiv_neg_iff)
  then show ?case using Cons \<open>0 < c\<close> by (simp add: Let_def)
qed

lemma find_coins_greedy_negative_amount:
  assumes "amount < 0" and "\<forall>c \<in> set coins. 0 < c"
  shows "find_coins_greedy amount coins = Inr []"
proof -
  have "greedy_loop (rev (sort coins)) (amount, []) = Inr (amount, [])"
    using assms by (intro greedy_loop_negative_amount) simp_all
  then show ?thesis by (simp add: find_coins_greedy_def)
qed

section \<open>The claims\<close>

text \<open>
  C8. On the amount 12 with the denominations 9, 6, 1 the greedy function returns
  \<open>{9: 1, 1: 3}\<close>, four coins, and the dynamic-programming function returns \<open>{6: 2}\<close>, two
  coins. The equalities are between association lists, so they also fix the order of the
  keys.
\<close>

theorem twelve_with_9_6_1:
  "find_coins_greedy 12 [9, 6, 1] = Inr [(9, 1), (1, 3)] \<and> coin_count [(9, 1), (1, 3)] = 4 \<and>
   find_min_coins 12 [9, 6, 1] = Some (Inr [(6, 2)]) \<and> coin_count [(6, 2)] = 2"
proof (intro conjI)
  show "find_coins_greedy 12 [9, 6, 1] = Inr [(9, 1), (1, 3)]" by code_simp
  show "coin_count [(9, 1), (1, 3)] = 4" by (simp add: coin_count_def)
  show "find_min_coins 12 [9, 6, 1] = Some (Inr [(6, 2)])" by code_simp
  show "coin_count [(6, 2)] = 2" by (simp add: coin_count_def)
qed

text \<open>
  C10. For an amount \<open>\<ge> 0\<close> and positive denominations the greedy function returns a
  mapping, and its weighted sum (denomination times count) is at most the amount.
\<close>

theorem greedy_never_exceeds:
  assumes "0 \<le> amount" and "\<forall>c \<in> set coins. 0 < c"
  shows "\<exists>r. find_coins_greedy amount coins = Inr r \<and> weighted_sum r \<le> amount"
proof -
  obtain a' r where "find_coins_greedy amount coins = Inr r" "greedy_post coins amount [] a' r"
    using find_coins_greedy_positive [OF assms] by blast
  then show ?thesis by (auto simp: greedy_post_def weighted_sum_def)
qed

theorem greedy_never_exceeds_witness:
  "0 \<le> (12::int) \<and> (0::int) < 9 \<and> (0::int) < 6 \<and>
   find_coins_greedy 12 [9, 6] = Inr [(9, 1)] \<and> weighted_sum [(9, 1)] \<le> 12"
proof -
  have "find_coins_greedy 12 [9, 6] = Inr [(9, 1)]" by code_simp
  then show ?thesis using greedy_never_exceeds [of 12 "[9, 6]"] by (simp add: weighted_sum_def)
qed

text \<open>
  C1. For an amount \<open>\<ge> 0\<close> and a non-empty list of positive denominations,
  \<open>find_min_coins\<close> returns a mapping. If the amount can be formed from the denominations
  (each in unlimited supply), the mapping is a decomposition of the amount and no
  decomposition of the amount has fewer coins; if it cannot be formed, the mapping is empty.
\<close>

theorem find_min_coins_optimal:
  assumes "0 \<le> amount" and "coins \<noteq> []" and "\<forall>c \<in> set coins. 0 < c"
  shows "\<exists>r. find_min_coins amount coins = Some (Inr r) \<and>
           (if formable coins amount
            then decomposition coins amount r \<and>
                 (\<forall>d. decomposition coins amount d \<longrightarrow> coin_count r \<le> coin_count d)
            else r = [])"
proof -
  obtain r where r: "find_min_coins amount coins = Some (Inr r)"
    "if formable coins amount
     then decomposition coins amount r \<and>
          (\<forall>cs. set cs \<subseteq> set coins \<and> sum_list cs = amount \<longrightarrow> coin_count r \<le> int (length cs))
     else r = []"
    using find_min_coins_positive [OF assms(1,3)] by blast
  show ?thesis
  proof (cases "formable coins amount")
    case True
    then have "decomposition coins amount r"
      and "\<forall>cs. set cs \<subseteq> set coins \<and> sum_list cs = amount \<longrightarrow> coin_count r \<le> int (length cs)"
      using r(2) by simp_all
    then show ?thesis using r(1) True decomposition_minimal by auto
  next
    case False
    then show ?thesis using r by simp
  qed
qed

theorem find_min_coins_optimal_witness:
  "0 \<le> (12::int) \<and> [9, 6, 1 :: int] \<noteq> [] \<and> (0::int) < 9 \<and> (0::int) < 6 \<and> (0::int) < 1 \<and>
   formable [9, 6, 1] 12 \<and>
   find_min_coins 12 [9, 6, 1] = Some (Inr [(6, 2)]) \<and>
   decomposition [9, 6, 1] 12 [(6, 2)] \<and>
   decomposition [9, 6, 1] 12 [(9, 1), (1, 3)] \<and>
   coin_count [(6, 2)] \<le> coin_count [(9, 1), (1, 3)]"
proof -
  have f: "formable [9, 6, 1] 12" by (rule formable_with_one) simp_all
  have d: "decomposition [9, 6, 1] 12 [(9, 1), (1, 3)]"
    by (simp add: decomposition_def weighted_sum_def)
  have e: "find_min_coins 12 [9, 6, 1] = Some (Inr [(6, 2)])" by code_simp
  show ?thesis
    using find_min_coins_optimal [of 12 "[9, 6, 1]"] f d e by auto
qed

text \<open>
  C2. For an amount \<open>\<ge> 0\<close> and positive denominations, whenever the mapping returned by
  \<open>find_min_coins\<close> is non-empty, or the amount is 0, the sum of denomination times count
  over the mapping is the amount.
\<close>

theorem find_min_coins_round_trip:
  assumes "0 \<le> amount" and "\<forall>c \<in> set coins. 0 < c"
  shows "\<exists>r. find_min_coins amount coins = Some (Inr r) \<and>
           (r \<noteq> [] \<or> amount = 0 \<longrightarrow> weighted_sum r = amount)"
proof -
  obtain r where r: "find_min_coins amount coins = Some (Inr r)"
    "if formable coins amount
     then decomposition coins amount r \<and>
          (\<forall>cs. set cs \<subseteq> set coins \<and> sum_list cs = amount \<longrightarrow> coin_count r \<le> int (length cs))
     else r = []"
    using find_min_coins_positive [OF assms] by blast
  have "weighted_sum r = amount" if "r \<noteq> [] \<or> amount = 0"
  proof (cases "formable coins amount")
    case True
    then show ?thesis using r(2) by (simp add: decomposition_def)
  next
    case False
    then have "r = []" using r(2) by simp
    then show ?thesis using that by (simp add: weighted_sum_def)
  qed
  then show ?thesis using r(1) by blast
qed

theorem find_min_coins_round_trip_witness:
  "0 \<le> (113::int) \<and> list_all (\<lambda>c. 0 < c) [50, 25, 10, 5, 2, 1 :: int] \<and>
   find_min_coins 113 [50, 25, 10, 5, 2, 1] = Some (Inr [(1, 1), (2, 1), (10, 1), (50, 2)]) \<and>
   [(1, 1), (2, 1), (10, 1), (50, 2)] \<noteq> ([] :: py_dict) \<and>
   weighted_sum [(1, 1), (2, 1), (10, 1), (50, 2)] = 113"
proof -
  have e: "find_min_coins 113 [50, 25, 10, 5, 2, 1] = Some (Inr [(1, 1), (2, 1), (10, 1), (50, 2)])"
    by code_simp
  show ?thesis
    using find_min_coins_round_trip [of 113 "[50, 25, 10, 5, 2, 1]"] e by simp
qed

text \<open>
  C4. For an amount \<open>> 0\<close> that no combination of the positive denominations forms,
  \<open>find_min_coins\<close> returns the empty mapping as a value: no exception, and the call
  returns. In particular \<open>find_min_coins(1, [9, 6])\<close> is the empty mapping.
\<close>

theorem find_min_coins_infeasible:
  "(0 < amount \<and> (\<forall>c \<in> set coins. 0 < c) \<and> \<not> formable coins amount \<longrightarrow>
      find_min_coins amount coins = Some (Inr [])) \<and>
   find_min_coins 1 [9, 6] = Some (Inr [])"
proof (intro conjI impI)
  assume a: "0 < amount \<and> (\<forall>c \<in> set coins. 0 < c) \<and> \<not> formable coins amount"
  then have "0 \<le> amount" and "\<forall>c \<in> set coins. 0 < c" by simp_all
  from find_min_coins_positive [OF this] a
  show "find_min_coins amount coins = Some (Inr [])" by auto
next
  show "find_min_coins 1 [9, 6] = Some (Inr [])" by code_simp
qed

theorem find_min_coins_infeasible_witness:
  "(0::int) < 5 \<and> (0::int) < 9 \<and> (0::int) < 6 \<and> \<not> formable [9, 6] 5 \<and>
   find_min_coins 5 [9, 6] = Some (Inr [])"
proof -
  have "\<not> formable [9, 6] 5" by (rule not_formable_below) simp_all
  then show ?thesis
    using find_min_coins_infeasible [of 5 "[9, 6]"] by simp
qed

text \<open>
  C7. For an amount \<open>\<ge> 0\<close> and positive denominations with 1 among them, both functions
  return mappings whose weighted sum is exactly the amount.
\<close>

theorem sums_exact_with_one:
  assumes "0 \<le> amount" and "\<forall>c \<in> set coins. 0 < c" and "1 \<in> set coins"
  shows "\<exists>g r. find_coins_greedy amount coins = Inr g \<and> weighted_sum g = amount \<and>
           find_min_coins amount coins = Some (Inr r) \<and> weighted_sum r = amount"
proof -
  obtain a' g where g: "find_coins_greedy amount coins = Inr g" "greedy_post coins amount [] a' g"
    using find_coins_greedy_positive [OF assms(1,2)] by blast
  have "weighted_sum g = amount"
    using g(2) assms(3) by (simp add: greedy_post_def weighted_sum_def)
  moreover obtain r where "find_min_coins amount coins = Some (Inr r)" "decomposition coins amount r"
    using find_min_coins_positive [OF assms(1,2)] formable_with_one [OF assms(1,3)] by auto
  ultimately show ?thesis using g(1) by (auto simp: decomposition_def)
qed

theorem sums_exact_with_one_witness:
  "0 \<le> (12::int) \<and> list_all (\<lambda>c. 0 < c) [9, 6, 1 :: int] \<and> (1::int) \<in> set [9, 6, 1] \<and>
   find_coins_greedy 12 [9, 6, 1] = Inr [(9, 1), (1, 3)] \<and> weighted_sum [(9, 1), (1, 3)] = 12 \<and>
   find_min_coins 12 [9, 6, 1] = Some (Inr [(6, 2)]) \<and> weighted_sum [(6, 2)] = 12"
proof -
  have "find_coins_greedy 12 [9, 6, 1] = Inr [(9, 1), (1, 3)]" by code_simp
  moreover have "find_min_coins 12 [9, 6, 1] = Some (Inr [(6, 2)])" by code_simp
  ultimately show ?thesis
    using sums_exact_with_one [of 12 "[9, 6, 1]"] by simp
qed

text \<open>
  C9. For positive denominations, both functions return the empty mapping on the amount 0.
\<close>

theorem zero_amount_empty:
  assumes "\<forall>c \<in> set coins. 0 < c"
  shows "find_coins_greedy 0 coins = Inr [] \<and> find_min_coins 0 coins = Some (Inr [])"
  using find_coins_greedy_zero find_min_coins_zero [OF assms] by simp

theorem zero_amount_empty_witness:
  "list_all (\<lambda>c. 0 < c) [9, 6, 1 :: int] \<and>
   find_coins_greedy 0 [9, 6, 1] = Inr [] \<and> find_min_coins 0 [9, 6, 1] = Some (Inr [])"
  using zero_amount_empty [of "[9, 6, 1]"] by simp

text \<open>
  C3, as stated: the coin count of \<open>find_min_coins\<close> is at most the coin count of
  \<open>find_coins_greedy\<close> on every input. It fails on the amount 6 with the denominations 4
  and 3: the greedy mapping \<open>{4: 1}\<close> is incomplete (it sums to 4) and has one coin, the
  optimal mapping \<open>{3: 2}\<close> has two.
\<close>

theorem optimal_above_greedy_counterexample:
  "find_coins_greedy 6 [4, 3] = Inr [(4, 1)] \<and> find_min_coins 6 [4, 3] = Some (Inr [(3, 2)]) \<and>
   \<not> coin_count [(3, 2)] \<le> coin_count [(4, 1)]"
proof (intro conjI)
  show "find_coins_greedy 6 [4, 3] = Inr [(4, 1)]" by code_simp
  show "find_min_coins 6 [4, 3] = Some (Inr [(3, 2)])" by code_simp
  show "\<not> coin_count [(3, 2)] \<le> coin_count [(4, 1)]" by (simp add: coin_count_def)
qed

text \<open>
  C3, amended. For an amount \<open>\<ge> 0\<close> and positive denominations both functions return a
  mapping, and whenever the greedy mapping is complete (its weighted sum is the amount), or
  the amount cannot be formed at all, the coin count of \<open>find_min_coins\<close> is at most the
  coin count of \<open>find_coins_greedy\<close>.
\<close>

theorem optimal_at_most_complete_greedy:
  assumes "0 \<le> amount" and "\<forall>c \<in> set coins. 0 < c"
  shows "\<exists>g r. find_coins_greedy amount coins = Inr g \<and>
           find_min_coins amount coins = Some (Inr r) \<and>
           (weighted_sum g = amount \<or> \<not> formable coins amount \<longrightarrow> coin_count r \<le> coin_count g)"
proof -
  obtain a' g where g: "find_coins_greedy amount coins = Inr g" "greedy_post coins amount [] a' g"
    using find_coins_greedy_positive [OF assms] by blast
  obtain r where r: "find_min_coins amount coins = Some (Inr r)"
    "if formable coins amount
     then decomposition coins amount r \<and>
          (\<forall>cs. set cs \<subseteq> set coins \<and> sum_list cs = amount \<longrightarrow> coin_count r \<le> int (length cs))
     else r = []"
    using find_min_coins_positive [OF assms] by blast
  have "coin_count r \<le> coin_count g" if h: "weighted_sum g = amount \<or> \<not> formable coins amount"
  proof (cases "formable coins amount")
    case True
    then have dec: "decomposition coins amount g"
      using h greedy_post_decomposition [OF g(2)] by simp
    have "\<forall>cs. set cs \<subseteq> set coins \<and> sum_list cs = amount \<longrightarrow> coin_count r \<le> int (length cs)"
      using r(2) True by simp
    then show ?thesis using dec by (rule decomposition_minimal)
  next
    case False
    then have "r = []" using r(2) by simp
    moreover have "0 \<le> coin_count g"
      using g(2) by (intro coin_count_nonneg) (simp add: greedy_post_def)
    ultimately show ?thesis by (simp add: coin_count_def)
  qed
  then show ?thesis using g(1) r(1) by blast
qed

theorem optimal_at_most_complete_greedy_witness:
  "0 \<le> (12::int) \<and> list_all (\<lambda>c. 0 < c) [9, 6, 1 :: int] \<and>
   find_coins_greedy 12 [9, 6, 1] = Inr [(9, 1), (1, 3)] \<and>
   find_min_coins 12 [9, 6, 1] = Some (Inr [(6, 2)]) \<and>
   weighted_sum [(9, 1), (1, 3)] = 12 \<and>
   coin_count [(6, 2)] \<le> coin_count [(9, 1), (1, 3)]"
proof -
  have "find_coins_greedy 12 [9, 6, 1] = Inr [(9, 1), (1, 3)]" by code_simp
  moreover have "find_min_coins 12 [9, 6, 1] = Some (Inr [(6, 2)])" by code_simp
  moreover have "weighted_sum [(9, 1), (1, 3)] = 12" by (simp add: weighted_sum_def)
  ultimately show ?thesis
    using optimal_at_most_complete_greedy [of 12 "[9, 6, 1]"] by auto
qed

text \<open>
  C5, as stated: the mapping returned by \<open>find_min_coins\<close> is the same for every
  permutation of the denominations. It fails on the amount 4: with the denominations in the
  order 1, 2, 3 the result is \<open>{2: 2}\<close>, in the order 1, 3, 2 it is \<open>{1: 1, 3: 1}\<close>. The
  comparison \<^verbatim>\<open><\<close> in the inner loop keeps the first coin that reaches the minimal cost.
\<close>

theorem order_dependent_counterexample:
  "mset [1, 3, 2] = mset [1, 2, 3 :: int] \<and>
   find_min_coins 4 [1, 2, 3] = Some (Inr [(2, 2)]) \<and>
   find_min_coins 4 [1, 3, 2] = Some (Inr [(1, 1), (3, 1)]) \<and>
   map_of [(2, 2 :: int)] (2 :: int) \<noteq> map_of [(1, 1), (3, 1)] 2"
proof (intro conjI)
  show "mset [1, 3, 2] = mset [1, 2, 3 :: int]" by simp
  show "find_min_coins 4 [1, 2, 3] = Some (Inr [(2, 2)])" by code_simp
  show "find_min_coins 4 [1, 3, 2] = Some (Inr [(1, 1), (3, 1)])" by code_simp
  show "map_of [(2, 2 :: int)] (2 :: int) \<noteq> map_of [(1, 1), (3, 1)] 2" by simp
qed

text \<open>
  C5, amended. For an amount \<open>\<ge> 0\<close> and positive denominations, the mappings returned for
  two permutations of the denominations have the same total coin count and the same
  weighted sum, and one is empty exactly when the other is; which of several minimal
  decompositions is returned depends on the order.
\<close>

theorem order_independent_count:
  assumes "0 \<le> amount" and "\<forall>c \<in> set coins. 0 < c" and "mset coins' = mset coins"
  shows "\<exists>r r'. find_min_coins amount coins = Some (Inr r) \<and>
           find_min_coins amount coins' = Some (Inr r') \<and>
           coin_count r' = coin_count r \<and> weighted_sum r' = weighted_sum r \<and>
           (r' = [] \<longleftrightarrow> r = [])"
proof -
  have set: "set coins' = set coins" using assms(3) by (rule mset_eq_setD)
  have pos': "\<forall>c \<in> set coins'. 0 < c" using assms(2) set by simp
  obtain r where r: "find_min_coins amount coins = Some (Inr r)"
    "if formable coins amount
     then decomposition coins amount r \<and>
          (\<forall>cs. set cs \<subseteq> set coins \<and> sum_list cs = amount \<longrightarrow> coin_count r \<le> int (length cs))
     else r = []"
    using find_min_coins_positive [OF assms(1,2)] by blast
  obtain r' where r': "find_min_coins amount coins' = Some (Inr r')"
    "if formable coins amount
     then decomposition coins amount r' \<and>
          (\<forall>cs. set cs \<subseteq> set coins \<and> sum_list cs = amount \<longrightarrow> coin_count r' \<le> int (length cs))
     else r' = []"
    using find_min_coins_positive [OF assms(1) pos']
    unfolding formable_set_cong [OF set] decomposition_set_cong [OF set] set by blast
  have "coin_count r' = coin_count r \<and> weighted_sum r' = weighted_sum r \<and> (r' = [] \<longleftrightarrow> r = [])"
  proof (cases "formable coins amount")
    case False
    then show ?thesis using r(2) r'(2) by simp
  next
    case True
    then have d: "decomposition coins amount r" "decomposition coins amount r'"
      and m: "\<forall>cs. set cs \<subseteq> set coins \<and> sum_list cs = amount \<longrightarrow> coin_count r \<le> int (length cs)"
        "\<forall>cs. set cs \<subseteq> set coins \<and> sum_list cs = amount \<longrightarrow> coin_count r' \<le> int (length cs)"
      using r(2) r'(2) by simp_all
    have "coin_count r \<le> coin_count r'" using m(1) d(2) by (rule decomposition_minimal)
    moreover have "coin_count r' \<le> coin_count r" using m(2) d(1) by (rule decomposition_minimal)
    ultimately have c: "coin_count r' = coin_count r" by simp
    have w: "weighted_sum r' = weighted_sum r" using d by (simp add: decomposition_def)
    have "r' = [] \<longleftrightarrow> r = []"
    proof
      assume "r' = []"
      then have "coin_count r = 0" using c by (simp add: coin_count_def)
      with decomposition_counts [OF d(1)] show "r = []" by (rule coin_count_zero_empty)
    next
      assume "r = []"
      then have "coin_count r' = 0" using c by (simp add: coin_count_def)
      with decomposition_counts [OF d(2)] show "r' = []" by (rule coin_count_zero_empty)
    qed
    with c w show ?thesis by simp
  qed
  then show ?thesis using r(1) r'(1) by blast
qed

theorem order_independent_count_witness:
  "0 \<le> (4::int) \<and> list_all (\<lambda>c. 0 < c) [1, 2, 3 :: int] \<and> mset [1, 3, 2] = mset [1, 2, 3 :: int] \<and>
   find_min_coins 4 [1, 2, 3] = Some (Inr [(2, 2)]) \<and>
   find_min_coins 4 [1, 3, 2] = Some (Inr [(1, 1), (3, 1)]) \<and>
   coin_count [(1, 1), (3, 1)] = coin_count [(2, 2)] \<and>
   weighted_sum [(1, 1), (3, 1)] = weighted_sum [(2, 2)]"
proof -
  have "find_min_coins 4 [1, 2, 3] = Some (Inr [(2, 2)])" by code_simp
  moreover have "find_min_coins 4 [1, 3, 2] = Some (Inr [(1, 1), (3, 1)])" by code_simp
  moreover have "mset [1, 3, 2] = mset [1, 2, 3 :: int]" by simp
  ultimately show ?thesis
    using order_independent_count [of 4 "[1, 2, 3]" "[1, 3, 2]"] by auto
qed

text \<open>
  C6, as stated: on a negative amount or a denomination \<open>\<le> 0\<close> each of the two functions
  rejects the input with an error. It fails: \<open>find_coins_greedy(-5, [1])\<close> and
  \<open>find_coins_greedy(5, [-3])\<close> return the empty mapping, and \<open>find_min_coins(3, [0, 1])\<close>
  returns \<open>{1: 3}\<close>.
\<close>

theorem silent_on_invalid_input_counterexample:
  "find_coins_greedy (- 5) [1] = Inr [] \<and> find_min_coins 3 [0, 1] = Some (Inr [(1, 3)]) \<and>
   find_coins_greedy 5 [- 3] = Inr []"
proof (intro conjI)
  show "find_coins_greedy (- 5) [1] = Inr []" by code_simp
  show "find_min_coins 3 [0, 1] = Some (Inr [(1, 3)])" by code_simp
  show "find_coins_greedy 5 [- 3] = Inr []" by code_simp
qed

text \<open>
  C6, amended. Neither function validates its input. \<open>find_min_coins\<close> raises
  \<^verbatim>\<open>IndexError\<close> on every input with a negative amount or a negative denomination; a
  denomination 0 is not rejected but ignored (the call behaves as the call without the
  zeros). \<open>find_coins_greedy\<close> returns the empty mapping on a negative amount with positive
  denominations.
\<close>

theorem invalid_input_behaviour:
  "(amount < 0 \<or> (\<exists>c \<in> set coins. c < 0) \<longrightarrow> find_min_coins amount coins = Some (Inl IndexError)) \<and>
   find_min_coins amount coins = find_min_coins amount (filter (\<lambda>c. c \<noteq> 0) coins) \<and>
   (amount < 0 \<and> (\<forall>c \<in> set coins. 0 < c) \<longrightarrow> find_coins_greedy amount coins = Inr [])"
  using find_min_coins_negative_amount find_min_coins_negative_coin
    find_min_coins_ignores_zero find_coins_greedy_negative_amount
  by blast

theorem invalid_input_behaviour_witness:
  "(- 5 :: int) < 0 \<and> (0 :: int) < 1 \<and> (- 1 :: int) < 0 \<and>
   find_min_coins (- 5) [1] = Some (Inl IndexError) \<and>
   find_coins_greedy (- 5) [1] = Inr [] \<and>
   find_min_coins 3 [- 1] = Some (Inl IndexError) \<and>
   find_min_coins 3 [0, 1] = find_min_coins 3 [1]"
  using invalid_input_behaviour [of "- 5" "[1]"] invalid_input_behaviour [of 3 "[- 1]"]
    invalid_input_behaviour [of 3 "[0, 1]"]
  by simp

end
